theory Spec2Isabelle
  imports Main "HOL-Library.Word"
begin

section \<open>Block tree nodes (snow/consensus/snowman/snowman_block.go)\<close>

subsection \<open>Collaborating types\<close>

text \<open>\<^verbatim>\<open>ids.ID\<close> is an array of 32 bytes; only equality of identities is used.\<close>

type_synonym ID = "256 word"

text \<open>
  Modelled from the spec: the status type \<^verbatim>\<open>choices.Status\<close> is declared elsewhere
  in the repository; a status is drawn from Processing, Accepted and Rejected.
\<close>

datatype Status = choices_Processing | choices_Rejected | choices_Accepted

text \<open>
  Modelled from the spec: the \<^verbatim>\<open>Block\<close> interface is declared elsewhere in the
  repository. A block exposes an identity, a parent identity, a height, a timestamp
  and a status. The object behind the interface is owned by the block storage, so
  the node holds a reference to it and the objects live in a store.
\<close>

record BlockObj =
  ID :: ID
  Parent :: ID
  Height :: "64 word"
  Timestamp :: int
  Status :: Status

type_synonym Block = nat

text \<open>
  Modelled from the spec: \<^verbatim>\<open>snowball.Parameters\<close> is declared elsewhere in the
  repository; it carries the sample size K, the quorum threshold Alpha and the number
  Beta of consecutive successes required for finality.
\<close>

record Parameters =
  K :: int
  Alpha :: int
  Beta :: int

text \<open>
  Modelled from the spec: the voting primitive \<^verbatim>\<open>snowball.Tree\<close>, which
  \<^verbatim>\<open>snowball.NewTree\<close> returns behind the \<^verbatim>\<open>snowball.Consensus\<close> interface, is
  defined elsewhere in the repository. An instance holds a set of known alternatives,
  a current preferred alternative, a confidence counter per alternative and a
  finalized flag; it is made by a factory with the parameters of the engine.
\<close>

datatype Factory = SnowballFactory

record Tree =
  tree_factory :: Factory
  tree_params :: Parameters
  alternatives :: "ID set"
  preference :: ID
  confidence :: "ID \<Rightarrow> nat"
  finalized :: bool

text \<open>
  Modelled from the spec: \<^verbatim>\<open>snowball.NewTree\<close> is defined elsewhere in the
  repository. The alternative given when the instance is made is its only
  alternative and its preference, with no voting needed.
\<close>

definition NewTree :: "Factory \<Rightarrow> Parameters \<Rightarrow> ID \<Rightarrow> Tree" where
  "NewTree factory ps choice =
     \<lparr>tree_factory = factory, tree_params = ps, alternatives = {choice},
      preference = choice, confidence = (\<lambda>_. 0), finalized = False\<rparr>"

text \<open>
  Modelled from the spec: the method \<^verbatim>\<open>Add\<close> of the voting primitive is defined
  elsewhere in the repository. It registers a new alternative.
\<close>

definition Tree_Add :: "Tree \<Rightarrow> ID \<Rightarrow> Tree" where
  "Tree_Add t choice = t\<lparr>alternatives := insert choice (alternatives t)\<rparr>"

text \<open>
  Modelled from the spec: the method \<^verbatim>\<open>Preference\<close> of the voting primitive is
  defined elsewhere in the repository. It returns the current preferred alternative.
\<close>

definition Preference :: "Tree \<Rightarrow> ID" where
  "Preference t = preference t"

subsection \<open>The store\<close>

text \<open>
  Block objects and snowball instances are reached through references. The store
  maps a block reference to the object behind it and the address of a snowball
  instance to the instance; \<open>allocated\<close> counts the instances made so far, and a new
  instance takes the next address.
\<close>

record heap =
  blocks :: "Block \<Rightarrow> BlockObj"
  trees :: "nat \<Rightarrow> Tree"
  allocated :: nat

definition new_Tree :: "Tree \<Rightarrow> heap \<Rightarrow> nat \<times> heap" where
  "new_Tree t h = (allocated h, h\<lparr>trees := (trees h)(allocated h := t), allocated := Suc (allocated h)\<rparr>)"

subsection \<open>The node\<close>

text \<open>
  \<^verbatim>\<open>sb\<close> and \<^verbatim>\<open>children\<close> are nil (\<open>None\<close>) or hold the address of a snowball
  instance and a map; \<^verbatim>\<open>blk\<close> is nil for the genesis.
\<close>

record snowmanBlock =
  params :: Parameters
  blk :: "Block option"
  shouldFalter :: bool
  sb :: "nat option"
  children :: "(ID \<rightharpoonup> Block) option"

text \<open>A write to a nil map panics.\<close>

datatype panic = AssignmentToEntryInNilMap

text \<open>
  \<^verbatim>\<open>AddChild\<close> has a pointer receiver: it returns the node and the store as it leaves
  them.
\<close>

definition AddChild :: "snowmanBlock \<Rightarrow> Block \<Rightarrow> heap \<Rightarrow> panic + (snowmanBlock \<times> heap)" where
  "AddChild n child h =
     (let childID = ID (blocks h child);
          (n1, h1) =
            (case sb n of
               None \<Rightarrow>
                 (let (a, h') = new_Tree (NewTree SnowballFactory (params n) childID) h
                  in (n\<lparr>sb := Some a, children := Some Map.empty\<rparr>, h'))
             | Some a \<Rightarrow>
                 (n, h\<lparr>trees := (trees h)(a := Tree_Add (trees h a) childID)\<rparr>))
      in case children n1 of
           None \<Rightarrow> Inl AssignmentToEntryInNilMap
         | Some m \<Rightarrow> Inr (n1\<lparr>children := Some (m(childID \<mapsto> child))\<rparr>, h1))"

definition Accepted :: "snowmanBlock \<Rightarrow> heap \<Rightarrow> bool" where
  "Accepted n h =
     (case blk n of
        None \<Rightarrow> True
      | Some b \<Rightarrow> Status (blocks h b) = choices_Accepted)"

text \<open>
  \<^verbatim>\<open>String\<close> has a value receiver and builds its result in a local builder. What
  \<^verbatim>\<open>%v\<close> prints for a value is decided by the value's type, outside the files at
  hand, so the printers are parameters; so is the order \<open>ks\<close> in which \<^verbatim>\<open>range\<close>
  visits the keys of the map.
\<close>

record verbs =
  v_Parameters :: "Parameters \<Rightarrow> string"
  v_ID :: "ID \<Rightarrow> string"
  v_Status :: "Status \<Rightarrow> string"
  v_uint64 :: "64 word \<Rightarrow> string"
  v_Time :: "int \<Rightarrow> string"
  v_Consensus :: "Tree \<Rightarrow> string"
  v_Block :: "BlockObj \<Rightarrow> string"

fun Join :: "string list \<Rightarrow> string \<Rightarrow> string" where
  "Join [] sep = []"
| "Join [x] sep = x"
| "Join (x # xs) sep = x @ sep @ Join xs sep"

definition String :: "verbs \<Rightarrow> ID list \<Rightarrow> snowmanBlock \<Rightarrow> heap \<Rightarrow> string" where
  "String f ks n h =
     (let s0 = ''params: '' @ v_Parameters f (params n);
          s1 = (case blk n of
                  None \<Rightarrow> s0
                | Some b \<Rightarrow>
                    s0 @ '' blk: ID: '' @ v_ID f (ID (blocks h b))
                       @ '' Status: '' @ v_Status f (Status (blocks h b))
                       @ '' Parent: '' @ v_ID f (Parent (blocks h b))
                       @ '' Height: '' @ v_uint64 f (Height (blocks h b))
                       @ '' Timestamp: '' @ v_Time f (Timestamp (blocks h b)));
          s2 = (case sb n of
                  None \<Rightarrow> s1
                | Some a \<Rightarrow> s1 @ '' sb: '' @ v_Consensus f (trees h a))
      in case children n of
           None \<Rightarrow> s2
         | Some m \<Rightarrow>
             (let kvs = List.map_filter
                          (\<lambda>k. map_option (\<lambda>v. v_ID f k @ '': '' @ v_Block f (blocks h v)) (m k)) ks
              in s2 @ '' children: {'' @ Join kvs '', '' @ ''}''))"

subsection \<open>Nodes as the engine makes them, and runs of calls\<close>

text \<open>
  A node under which no child has been issued: the engine makes a node from its
  parameters and its block and leaves the other fields at their zero values, so
  \<^verbatim>\<open>sb\<close> and \<^verbatim>\<open>children\<close> are nil, as the comments of these fields say.
\<close>

definition newNode :: "Parameters \<Rightarrow> Block option \<Rightarrow> snowmanBlock" where
  "newNode ps b = \<lparr>params = ps, blk = b, shouldFalter = False, sb = None, children = None\<rparr>"

text \<open>
  \<open>AddChildren\<close> is a run of \<^verbatim>\<open>AddChild\<close> calls on one node, one for each block of
  the list, in order; a panic ends it.
\<close>

fun AddChildren :: "snowmanBlock \<Rightarrow> Block list \<Rightarrow> heap \<Rightarrow> panic + (snowmanBlock \<times> heap)" where
  "AddChildren n [] h = Inr (n, h)"
| "AddChildren n (c # cs) h =
     (case AddChild n c h of
        Inl e \<Rightarrow> Inl e
      | Inr (n', h') \<Rightarrow> AddChildren n' cs h')"

subsection \<open>Concrete data for the examples\<close>

text \<open>
  An accepted block 0 with two processing children 1 and 2; every other reference
  holds a child of block 1.
\<close>

definition block0 :: BlockObj where
  "block0 = \<lparr>ID = 0, Parent = 0, Height = 0, Timestamp = 99, Status = choices_Accepted\<rparr>"

definition block1 :: BlockObj where
  "block1 = \<lparr>ID = 1, Parent = 0, Height = 1, Timestamp = 100, Status = choices_Processing\<rparr>"

definition block2 :: BlockObj where
  "block2 = \<lparr>ID = 2, Parent = 0, Height = 1, Timestamp = 101, Status = choices_Processing\<rparr>"

definition block3 :: BlockObj where
  "block3 = \<lparr>ID = 3, Parent = 1, Height = 2, Timestamp = 102, Status = choices_Processing\<rparr>"

definition params0 :: Parameters where
  "params0 = \<lparr>K = 20, Alpha = 15, Beta = 3\<rparr>"

definition heap0 :: heap where
  "heap0 = \<lparr>blocks = (\<lambda>b. if b = 0 then block0 else if b = 1 then block1
                          else if b = 2 then block2 else block3),
            trees = (\<lambda>_. NewTree SnowballFactory params0 0), allocated = 0\<rparr>"

definition node0 :: snowmanBlock where
  "node0 = newNode params0 (Some 0)"

text \<open>The node and the store after block 1 was added under \<open>node0\<close>.\<close>

definition node1 :: snowmanBlock where
  "node1 = node0\<lparr>sb := Some 0, children := Some [1 \<mapsto> 1]\<rparr>"

definition heap1 :: heap where
  "heap1 = heap0\<lparr>trees := (trees heap0)(0 := NewTree SnowballFactory params0 1), allocated := 1\<rparr>"

definition verbs0 :: verbs where
  "verbs0 = \<lparr>v_Parameters = (\<lambda>_. ''p''), v_ID = (\<lambda>i. if i = 1 then ''one'' else ''two''),
             v_Status = (\<lambda>_. ''s''), v_uint64 = (\<lambda>_. ''h''), v_Time = (\<lambda>_. ''t''),
             v_Consensus = (\<lambda>_. ''c''), v_Block = (\<lambda>_. ''b'')\<rparr>"


section \<open>The gossip mempool (vms/avm/network/gossip.go)\<close>

subsection \<open>Transactions and errors\<close>

text \<open>
  A transaction is reached through a pointer; \<^verbatim>\<open>tx.ID()\<close> reads its identity. An
  error is \<^verbatim>\<open>mempool.ErrDuplicateTx\<close>, the error that \<^verbatim>\<open>fmt.Errorf\<close> wraps around
  it together with the transaction's identity, or an error value of a collaborator.
\<close>

record Tx =
  TxID :: ID
  TxBytes :: "8 word list"

datatype error =
    ErrDuplicateTx
  | Errorf_attempted_to_issue error ID
  | Err nat

subsection \<open>Collaborators\<close>

text \<open>
  \<^verbatim>\<open>mempool.Mempool\<close> is an interface, and its implementation is elsewhere in the
  repository: its methods are parameters, over a state \<open>'m\<close> of the mempool. \<^verbatim>\<open>Add\<close>,
  \<^verbatim>\<open>MarkDropped\<close> and \<^verbatim>\<open>RequestBuildBlock\<close> return the state they leave;
  \<^verbatim>\<open>Get\<close>, \<^verbatim>\<open>GetDropReason\<close> and \<^verbatim>\<open>Len\<close> observe the state, and \<open>mp_Iterate\<close>
  is the sequence of transactions that \<^verbatim>\<open>Iterate\<close> visits. \<^verbatim>\<open>Len\<close> returns a Go
  \<^verbatim>\<open>int\<close>, 64 bits wide.
\<close>

record 'm Mempool =
  mp_Add :: "Tx \<Rightarrow> 'm \<Rightarrow> error option \<times> 'm"
  mp_Get :: "ID \<Rightarrow> 'm \<Rightarrow> Tx option"
  mp_GetDropReason :: "ID \<Rightarrow> 'm \<Rightarrow> error option"
  mp_MarkDropped :: "ID \<Rightarrow> error \<Rightarrow> 'm \<Rightarrow> 'm"
  mp_Len :: "'m \<Rightarrow> 64 word"
  mp_Iterate :: "'m \<Rightarrow> Tx list"
  mp_RequestBuildBlock :: "'m \<Rightarrow> 'm"

text \<open>
  \<^verbatim>\<open>Iterate\<close> calls its argument on each transaction in turn and stops as soon as a
  call returns false; the callback works on a state of its own.
\<close>

fun Iterate :: "Tx list \<Rightarrow> (Tx \<Rightarrow> 's \<Rightarrow> bool \<times> 's) \<Rightarrow> 's \<Rightarrow> 's" where
  "Iterate [] f s = s"
| "Iterate (tx # txs) f s =
     (case f tx s of
        (True, s') \<Rightarrow> Iterate txs f s'
      | (False, s') \<Rightarrow> s')"

text \<open>
  \<^verbatim>\<open>gossip.BloomFilter\<close> and \<^verbatim>\<open>gossip.ResetBloomFilterIfNeeded\<close> are elsewhere in the
  repository as well: parameters over a state \<open>'b\<close> of the filter. \<open>bloom_Has\<close> is the
  filter's membership test. \<^verbatim>\<open>ResetBloomFilterIfNeeded\<close> returns whether it reset the
  filter, an error or nil, and the filter as it leaves it.
\<close>

record 'b BloomFilter =
  bloom_Add :: "Tx \<Rightarrow> 'b \<Rightarrow> 'b"
  bloom_Has :: "'b \<Rightarrow> Tx \<Rightarrow> bool"
  ResetBloomFilterIfNeeded :: "'b \<Rightarrow> 64 word \<Rightarrow> (bool \<times> error option) \<times> 'b"

text \<open>\<^verbatim>\<open>TxVerifier.VerifyTx\<close> returns an error or nil for a transaction.\<close>

type_synonym TxVerifier = "Tx \<Rightarrow> error option"

subsection \<open>The gossip mempool\<close>

definition bloomChurnMultiplier :: "64 word" where
  "bloomChurnMultiplier = 3"

text \<open>
  The state that the methods change: the embedded mempool and the bloom filter. The
  logger, the parser and the lock hold nothing the methods below compute with; the
  calls are taken one at a time.
\<close>

record ('m, 'b) gossipMempool =
  Mempool :: 'm
  bloom :: 'b

definition AddWithoutVerification ::
  "'m Mempool \<Rightarrow> 'b BloomFilter \<Rightarrow> Tx \<Rightarrow> ('m, 'b) gossipMempool
     \<Rightarrow> error option \<times> ('m, 'b) gossipMempool" where
  "AddWithoutVerification M B tx g =
     (case mp_Add M tx (Mempool g) of
        (Some err, m1) \<Rightarrow> (Some err, g\<lparr>Mempool := mp_MarkDropped M (TxID tx) err m1\<rparr>)
      | (None, m1) \<Rightarrow>
          (let b1 = bloom_Add B tx (bloom g);
               ((reset, err), b2) =
                  ResetBloomFilterIfNeeded B b1 (mp_Len M m1 * bloomChurnMultiplier)
           in case err of
                Some e \<Rightarrow> (Some e, g\<lparr>Mempool := m1, bloom := b2\<rparr>)
              | None \<Rightarrow>
                  (let b3 = (if reset
                             then Iterate (mp_Iterate M m1) (\<lambda>tx b. (True, bloom_Add B tx b)) b2
                             else b2)
                   in (None, g\<lparr>Mempool := mp_RequestBuildBlock M m1, bloom := b3\<rparr>))))"

text \<open>
  The body of the loop of \<^verbatim>\<open>Add\<close> for one transaction: the value it leaves in
  \<^verbatim>\<open>errs[i]\<close> and the state.
\<close>

definition Add_body ::
  "'m Mempool \<Rightarrow> 'b BloomFilter \<Rightarrow> TxVerifier \<Rightarrow> Tx \<Rightarrow> ('m, 'b) gossipMempool
     \<Rightarrow> error option \<times> ('m, 'b) gossipMempool" where
  "Add_body M B V tx g =
     (let txID = TxID tx in
      case mp_Get M txID (Mempool g) of
        Some _ \<Rightarrow> (Some (Errorf_attempted_to_issue ErrDuplicateTx txID), g)
      | None \<Rightarrow>
          (case mp_GetDropReason M txID (Mempool g) of
             Some e \<Rightarrow> (Some e, g)
           | None \<Rightarrow>
               (case V tx of
                  Some e \<Rightarrow> (Some e, g\<lparr>Mempool := mp_MarkDropped M txID e (Mempool g)\<rparr>)
                | None \<Rightarrow> AddWithoutVerification M B tx g)))"

text \<open>
  The loop over the transactions from index \<open>i\<close> on, writing \<^verbatim>\<open>errs[i]\<close>, and
  \<^verbatim>\<open>Add\<close>, which starts it on a slice of nil errors as long as the input.
\<close>

fun Add_loop ::
  "'m Mempool \<Rightarrow> 'b BloomFilter \<Rightarrow> TxVerifier \<Rightarrow> nat \<Rightarrow> Tx list \<Rightarrow> error option list
     \<Rightarrow> ('m, 'b) gossipMempool \<Rightarrow> error option list \<times> ('m, 'b) gossipMempool" where
  "Add_loop M B V i [] errs g = (errs, g)"
| "Add_loop M B V i (tx # txs) errs g =
     (case Add_body M B V tx g of
        (e, g') \<Rightarrow> Add_loop M B V (Suc i) txs (errs[i := e]) g')"

definition gossipMempool_Add ::
  "'m Mempool \<Rightarrow> 'b BloomFilter \<Rightarrow> TxVerifier \<Rightarrow> Tx list \<Rightarrow> ('m, 'b) gossipMempool
     \<Rightarrow> error option list \<times> ('m, 'b) gossipMempool" where
  "gossipMempool_Add M B V txs g = Add_loop M B V 0 txs (replicate (length txs) None) g"

definition gossipMempool_Has :: "'m Mempool \<Rightarrow> ID \<Rightarrow> ('m, 'b) gossipMempool \<Rightarrow> bool" where
  "gossipMempool_Has M txID g = (mp_Get M txID (Mempool g) \<noteq> None)"

subsection \<open>The invariant between the mempool and the filter\<close>

text \<open>
  Every transaction of the mempool (every transaction that \<^verbatim>\<open>Iterate\<close> visits) is in
  the bloom filter.
\<close>

definition mempool_in_bloom :: "'m Mempool \<Rightarrow> 'b BloomFilter \<Rightarrow> ('m, 'b) gossipMempool \<Rightarrow> bool" where
  "mempool_in_bloom M B g = list_all (bloom_Has B (bloom g)) (mp_Iterate M (Mempool g))"

subsection \<open>A mempool and a filter for the examples\<close>

text \<open>
  A mempool that keeps its transactions in a list, refuses a transaction whose
  identity it holds, and records drop reasons in an association list; and a filter
  that keeps the transactions added to it in a list and is reset when it holds more
  than two.
\<close>

record list_mempool =
  lm_txs :: "Tx list"
  lm_dropped :: "(ID \<times> error) list"
  lm_build_requests :: nat

definition list_Mempool :: "list_mempool Mempool" where
  "list_Mempool =
     \<lparr>mp_Add = (\<lambda>tx m. if TxID tx \<in> TxID ` set (lm_txs m) then (Some ErrDuplicateTx, m)
                       else (None, m\<lparr>lm_txs := lm_txs m @ [tx]\<rparr>)),
      mp_Get = (\<lambda>i m. find (\<lambda>tx. TxID tx = i) (lm_txs m)),
      mp_GetDropReason = (\<lambda>i m. map_of (lm_dropped m) i),
      mp_MarkDropped = (\<lambda>i e m. m\<lparr>lm_dropped := (i, e) # lm_dropped m\<rparr>),
      mp_Len = (\<lambda>m. of_nat (length (lm_txs m))),
      mp_Iterate = lm_txs,
      mp_RequestBuildBlock = (\<lambda>m. m\<lparr>lm_build_requests := Suc (lm_build_requests m)\<rparr>)\<rparr>"

definition list_BloomFilter :: "Tx list BloomFilter" where
  "list_BloomFilter =
     \<lparr>bloom_Add = (\<lambda>tx b. tx # b),
      bloom_Has = (\<lambda>b tx. tx \<in> set b),
      ResetBloomFilterIfNeeded = (\<lambda>b n. if 2 < length b then ((True, None), []) else ((False, None), b))\<rparr>"

definition tx1 :: Tx where
  "tx1 = \<lparr>TxID = 1, TxBytes = [1]\<rparr>"

definition tx2 :: Tx where
  "tx2 = \<lparr>TxID = 2, TxBytes = [2]\<rparr>"

definition tx3 :: Tx where
  "tx3 = \<lparr>TxID = 3, TxBytes = [3]\<rparr>"

text \<open>A verifier that refuses transaction 2.\<close>

definition verifier0 :: TxVerifier where
  "verifier0 tx = (if TxID tx = 2 then Some (Err 7) else None)"

definition gossip0 :: "(list_mempool, Tx list) gossipMempool" where
  "gossip0 = \<lparr>Mempool = \<lparr>lm_txs = [], lm_dropped = [], lm_build_requests = 0\<rparr>, bloom = []\<rparr>"

text \<open>Two transactions in the mempool, and a filter about to be reset.\<close>

definition gossip2 :: "(list_mempool, Tx list) gossipMempool" where
  "gossip2 = \<lparr>Mempool = \<lparr>lm_txs = [tx1, tx2], lm_dropped = [], lm_build_requests = 0\<rparr>,
              bloom = [tx2, tx1]\<rparr>"


section \<open>The consensus engine\<close>

text \<open>
  Modelled from the spec: the consensus engine (its tree of pending blocks and its
  operations \<^verbatim>\<open>Add\<close> and \<^verbatim>\<open>RecordPoll\<close>) and the method \<^verbatim>\<open>RecordPoll\<close> of the
  voting primitive are elsewhere in the repository. The definitions of this section
  follow the spec's description of them; where the spec and \<^verbatim>\<open>AddChild\<close> differ on
  when a node's voting primitive is made, they follow \<^verbatim>\<open>AddChild\<close>.
\<close>

subsection \<open>Recording a poll in a voting primitive\<close>

text \<open>
  Modelled from the spec: the top-voted alternative is the one with the most votes;
  between alternatives with equally many votes the smaller identity wins, which is
  the same on every node that sees the same tally.
\<close>

fun top_voted :: "(ID \<times> nat) list \<Rightarrow> (ID \<times> nat) option" where
  "top_voted [] = None"
| "top_voted ((i, n) # xs) =
     (case top_voted xs of
        None \<Rightarrow> Some (i, n)
      | Some (j, m) \<Rightarrow> if m < n \<or> (n = m \<and> i \<le> j) then Some (i, n) else Some (j, m))"

text \<open>
  Modelled from the spec: when the top-voted alternative has at least Alpha votes,
  its confidence is incremented; when it differs from the preference, it becomes the
  preference and the confidence of the others is reset to zero; when its confidence
  reaches Beta, the instance is finalized. When no alternative reaches Alpha, every
  confidence is reset to zero and the preference is kept.
\<close>

definition Tree_RecordPoll :: "Tree \<Rightarrow> (ID \<times> nat) list \<Rightarrow> Tree" where
  "Tree_RecordPoll t votes =
     (case top_voted (filter (\<lambda>(i, n). i \<in> alternatives t) votes) of
        None \<Rightarrow> t\<lparr>confidence := (\<lambda>_. 0)\<rparr>
      | Some (w, n) \<Rightarrow>
          if Alpha (tree_params t) \<le> int n
          then (let conf = (if w = preference t then confidence t else (\<lambda>_. 0));
                    conf' = conf(w := Suc (confidence t w))
                in t\<lparr>preference := w, confidence := conf',
                     finalized := finalized t \<or> Beta (tree_params t) \<le> int (conf' w)\<rparr>)
          else t\<lparr>confidence := (\<lambda>_. 0)\<rparr>)"

subsection \<open>The tree of pending blocks\<close>

text \<open>
  Modelled from the spec: a node wraps a block (nil only for the virtual node of the
  accepted frontier), owns a voting primitive (nil while it has no child), a
  \<^verbatim>\<open>shouldFalter\<close> flag, and its child nodes, in the order in which they were added.
\<close>

datatype node = Node (n_blk: "BlockObj option") (n_sb: "Tree option")
                     (n_shouldFalter: bool) (n_children: "node list")

text \<open>
  Modelled from the spec: the identity of a node is that of its block; the virtual
  node stands for the accepted frontier \<open>d\<close>. The tracked identities are those of the
  nodes of the tree.
\<close>

definition nid :: "ID \<Rightarrow> node \<Rightarrow> ID" where
  "nid d n = (case n_blk n of None \<Rightarrow> d | Some b \<Rightarrow> ID b)"

fun node_ids :: "ID \<Rightarrow> node \<Rightarrow> ID list" where
  "node_ids d (Node b s f cs) = nid d (Node b s f cs) # concat (map (node_ids d) cs)"

text \<open>
  Modelled from the spec: the callbacks \<^verbatim>\<open>OnAccept\<close> and \<^verbatim>\<open>OnReject\<close> that the
  engine invokes, the errors of \<^verbatim>\<open>Add\<close>, and the engine, which owns the tree rooted
  at the last accepted block. The record of events lists the callbacks invoked so
  far, in order. The engine starts with the virtual node alone.
\<close>

datatype event = OnAccept ID | OnReject ID

datatype engine_error = InvalidParent | DuplicateBlock

record engine =
  eng_params :: Parameters
  lastAccepted :: ID
  root :: node
  events :: "event list"

definition Initialize :: "Parameters \<Rightarrow> ID \<Rightarrow> engine" where
  "Initialize ps g = \<lparr>eng_params = ps, lastAccepted = g, root = Node None None False [], events = []\<rparr>"

text \<open>
  Modelled from the spec: registering a child with a node, as \<^verbatim>\<open>AddChild\<close> does it:
  the voting primitive is made with the first child and extended with the later
  ones, and a new leaf holds the child.
\<close>

definition node_AddChild :: "Parameters \<Rightarrow> node \<Rightarrow> BlockObj \<Rightarrow> node" where
  "node_AddChild ps n child =
     Node (n_blk n)
       (case n_sb n of
          None \<Rightarrow> Some (NewTree SnowballFactory ps (ID child))
        | Some t \<Rightarrow> Some (Tree_Add t (ID child)))
       (n_shouldFalter n)
       (n_children n @ [Node (Some child) None False []])"

fun insert_child :: "Parameters \<Rightarrow> ID \<Rightarrow> BlockObj \<Rightarrow> node \<Rightarrow> node" where
  "insert_child ps d child (Node b s f cs) =
     (if nid d (Node b s f cs) = Parent child
      then node_AddChild ps (Node b s f cs) child
      else Node b s f (map (insert_child ps d child) cs))"

text \<open>
  Modelled from the spec: \<^verbatim>\<open>Add\<close> fails with \<^verbatim>\<open>InvalidParent\<close> when the block's
  parent is neither the accepted frontier nor a tracked node, and with
  \<^verbatim>\<open>DuplicateBlock\<close> when the block's identity is in the tree; otherwise the block
  becomes a new leaf under its parent.
\<close>

definition engine_Add :: "BlockObj \<Rightarrow> engine \<Rightarrow> engine_error + engine" where
  "engine_Add b e =
     (if Parent b \<notin> set (node_ids (lastAccepted e) (root e)) then Inl InvalidParent
      else if ID b \<in> set (node_ids (lastAccepted e) (root e)) then Inl DuplicateBlock
      else Inr (e\<lparr>root := insert_child (eng_params e) (lastAccepted e) b (root e)\<rparr>))"

text \<open>
  Modelled from the spec: the votes that a poll gives to the branch of a child are
  the weights of the voted blocks of that child's subtree; a vote for an identity
  that is not in the tree is never read.
\<close>

fun weight :: "(ID \<Rightarrow> nat) \<Rightarrow> ID \<Rightarrow> node \<Rightarrow> nat" where
  "weight v d (Node b s f cs) =
     (case b of None \<Rightarrow> 0 | Some x \<Rightarrow> v (ID x)) + sum_list (map (weight v d) cs)"

definition tally :: "(ID \<Rightarrow> nat) \<Rightarrow> ID \<Rightarrow> node list \<Rightarrow> (ID \<times> nat) list" where
  "tally v d cs = map (\<lambda>c. (nid d c, weight v d c)) cs"

text \<open>
  Modelled from the spec: a node that received fewer than Alpha votes across its
  children in this round is marked \<^verbatim>\<open>shouldFalter\<close>, and so is every node of its
  subtree; the flag is computed anew in each round.
\<close>

fun mark_falter :: "int \<Rightarrow> (ID \<Rightarrow> nat) \<Rightarrow> ID \<Rightarrow> bool \<Rightarrow> node \<Rightarrow> node" where
  "mark_falter alpha v d forced (Node b s f cs) =
     (let f' = (forced \<or> int (sum_list (map (weight v d) cs)) < alpha)
      in Node b s f' (map (mark_falter alpha v d f') cs))"

text \<open>
  Modelled from the spec: the pass from the root toward the leaves. The node's
  primitive records the tally of its children (a faltering node records a failed
  poll). When the primitive is finalized, its preferred child is accepted, every
  block of the subtrees of the child's siblings is rejected and those nodes are
  discarded, the child becomes the root, and the pass goes on from it. When the
  primitive is not finalized, the pass stops.
\<close>

function poll_pass :: "(ID \<Rightarrow> nat) \<Rightarrow> ID \<Rightarrow> node \<Rightarrow> node \<times> event list" where
  "poll_pass v d (Node b s f cs) =
     (case s of
        None \<Rightarrow> (Node b s f cs, [])
      | Some t \<Rightarrow>
          (let t' = Tree_RecordPoll t (if f then [] else tally v d cs)
           in if finalized t'
              then (case find (\<lambda>c. nid d c = preference t') cs of
                      None \<Rightarrow> (Node b (Some t') f cs, [])
                    | Some c \<Rightarrow>
                        (case poll_pass v d c of
                           (r, ev) \<Rightarrow>
                             (r, OnAccept (nid d c)
                                 # map OnReject
                                     (concat (map (node_ids d)
                                        (filter (\<lambda>c'. nid d c' \<noteq> nid d c) cs)))
                                 @ ev)))
              else (Node b (Some t') f cs, [])))"
  by pat_completeness auto
termination
proof (relation "measure (\<lambda>(v, d, n). size n)")
  show "wf (measure (\<lambda>(v, d, n). size n))" by simp
next
  fix v :: "ID \<Rightarrow> nat" and d :: ID and b s f and cs :: "node list" and t t' c
  assume "find (\<lambda>c. nid d c = preference t') cs = Some c"
  then have "c \<in> set cs" by (auto simp: find_Some_iff)
  then have "size c \<le> size_list size cs" by (rule size_list_estimation') simp
  then show "((v, d, c), (v, d, Node b s f cs)) \<in> measure (\<lambda>(v, d, n). size n)" by simp
qed

text \<open>
  Modelled from the spec: \<^verbatim>\<open>RecordPoll\<close> marks the faltering nodes and runs the
  pass; the callbacks it invokes are appended to the engine's record of events.
\<close>

definition engine_RecordPoll :: "(ID \<Rightarrow> nat) \<Rightarrow> engine \<Rightarrow> engine" where
  "engine_RecordPoll v e =
     (case poll_pass v (lastAccepted e)
             (mark_falter (Alpha (eng_params e)) v (lastAccepted e) False (root e)) of
        (r, ev) \<Rightarrow> e\<lparr>root := r, lastAccepted := nid (lastAccepted e) r, events := events e @ ev\<rparr>)"

text \<open>Modelled from the spec: \<^verbatim>\<open>LastAccepted\<close> is the identity of the root's block.\<close>

definition LastAccepted :: "engine \<Rightarrow> ID" where
  "LastAccepted e = lastAccepted e"

subsection \<open>Runs of the engine\<close>

text \<open>
  A run is a sequence of calls; a call of \<^verbatim>\<open>Add\<close> that fails leaves the engine as it
  was.
\<close>

datatype call = Call_Add BlockObj | Call_RecordPoll "ID \<Rightarrow> nat"

fun step :: "call \<Rightarrow> engine \<Rightarrow> engine" where
  "step (Call_Add b) e = (case engine_Add b e of Inl _ \<Rightarrow> e | Inr e' \<Rightarrow> e')"
| "step (Call_RecordPoll v) e = engine_RecordPoll v e"

fun run :: "call list \<Rightarrow> engine \<Rightarrow> engine" where
  "run [] e = e"
| "run (c # cs) e = run cs (step c e)"

fun added :: "call list \<Rightarrow> BlockObj list" where
  "added [] = []"
| "added (Call_Add b # cs) = b # added cs"
| "added (Call_RecordPoll v # cs) = added cs"

text \<open>
  Modelled from the spec: a block has a unique identity and a height that increases
  from parent to child. The blocks of a run are well formed when the identity of a
  block determines its parent and its height, and the height of a block is greater
  than the height of its parent.
\<close>

definition well_formed :: "BlockObj list \<Rightarrow> bool" where
  "well_formed bs =
     ((\<forall>b \<in> set bs. \<forall>b' \<in> set bs. ID b = ID b' \<longrightarrow> Parent b = Parent b' \<and> Height b = Height b')
      \<and> (\<forall>b \<in> set bs. \<forall>b' \<in> set bs. Parent b = ID b' \<longrightarrow> Height b' < Height b))"

text \<open>
  The parent relation of the blocks of a run, siblings, and descendants (a block
  counts among its own descendants).
\<close>

definition child_rel :: "BlockObj list \<Rightarrow> (ID \<times> ID) set" where
  "child_rel bs = (\<lambda>b. (Parent b, ID b)) ` set bs"

definition sibling :: "BlockObj list \<Rightarrow> ID \<Rightarrow> ID \<Rightarrow> bool" where
  "sibling bs x s = (s \<noteq> x \<and> (\<exists>p. (p, x) \<in> child_rel bs \<and> (p, s) \<in> child_rel bs))"

definition descends :: "BlockObj list \<Rightarrow> ID \<Rightarrow> ID \<Rightarrow> bool" where
  "descends bs s y = ((s, y) \<in> (child_rel bs)\<^sup>*)"

subsection \<open>Invariants of the engine\<close>

text \<open>
  In a well-shaped tree every child holds a block of the run whose parent is the node
  above it. The identities reported via \<^verbatim>\<open>OnAccept\<close> form a chain of the parent
  relation that starts at the first accepted frontier and ends at the current one.
\<close>

fun wf_node :: "BlockObj list \<Rightarrow> ID \<Rightarrow> node \<Rightarrow> bool" where
  "wf_node bs d (Node b s f cs) =
     (\<forall>c \<in> set cs. (\<exists>x \<in> set bs. n_blk c = Some x \<and> Parent x = nid d (Node b s f cs))
                    \<and> wf_node bs d c)"

fun chain :: "(ID \<times> ID) set \<Rightarrow> ID \<Rightarrow> ID list \<Rightarrow> bool" where
  "chain R r [] = True"
| "chain R r (x # xs) = ((r, x) \<in> R \<and> chain R x xs)"

fun accepts :: "event list \<Rightarrow> ID list" where
  "accepts [] = []"
| "accepts (OnAccept x # ev) = x # accepts ev"
| "accepts (OnReject x # ev) = accepts ev"

definition engine_inv :: "BlockObj list \<Rightarrow> ID \<Rightarrow> engine \<Rightarrow> bool" where
  "engine_inv bs g e =
     (wf_node bs (lastAccepted e) (root e)
      \<and> nid (lastAccepted e) (root e) = lastAccepted e
      \<and> chain (child_rel bs) g (accepts (events e))
      \<and> lastAccepted e = last (g # accepts (events e)))"

subsection \<open>The scenario of the spec\<close>

text \<open>
  K = 20, Alpha = 15, Beta = 3; the accepted block 0 with children 1 and 2; three
  polls with 16, 17 and 15 votes for block 1.
\<close>

definition votes :: "nat \<Rightarrow> nat \<Rightarrow> ID \<Rightarrow> nat" where
  "votes a b i = (if i = 1 then a else if i = 2 then b else 0)"

definition scenario :: "call list" where
  "scenario = [Call_Add block1, Call_Add block2, Call_RecordPoll (votes 16 4),
               Call_RecordPoll (votes 17 3), Call_RecordPoll (votes 15 5)]"

text \<open>
  The scenario goes on: block 3 is added under the accepted block 1; block 4, a child
  of the rejected block 2, is offered and refused; three polls give 16 votes to
  block 3.
\<close>

definition block4 :: BlockObj where
  "block4 = \<lparr>ID = 4, Parent = 2, Height = 2, Timestamp = 103, Status = choices_Processing\<rparr>"

definition votes3 :: "ID \<Rightarrow> nat" where
  "votes3 i = (if i = 3 then 16 else if i = 4 then 4 else 0)"

definition scenario2 :: "call list" where
  "scenario2 = scenario @ [Call_Add block3, Call_Add block4, Call_RecordPoll votes3,
                           Call_RecordPoll votes3, Call_RecordPoll votes3]"


section \<open>Properties of the block tree node\<close>

subsection \<open>What one call of AddChild does\<close>

lemma AddChild_nil:
  "sb n = None \<Longrightarrow>
   AddChild n c h =
     Inr (n\<lparr>sb := Some (allocated h), children := Some [ID (blocks h c) \<mapsto> c]\<rparr>,
          h\<lparr>trees := (trees h)(allocated h := NewTree SnowballFactory (params n) (ID (blocks h c))),
            allocated := Suc (allocated h)\<rparr>)"
  by (simp add: AddChild_def new_Tree_def Let_def)

lemma AddChild_extend:
  "sb n = Some a \<Longrightarrow> children n = Some m \<Longrightarrow>
   AddChild n c h =
     Inr (n\<lparr>children := Some (m(ID (blocks h c) \<mapsto> c))\<rparr>,
          h\<lparr>trees := (trees h)(a := Tree_Add (trees h a) (ID (blocks h c)))\<rparr>)"
  by (simp add: AddChild_def Let_def)

lemma AddChild_panic:
  "sb n = Some a \<Longrightarrow> children n = None \<Longrightarrow> AddChild n c h = Inl AssignmentToEntryInNilMap"
  by (simp add: AddChild_def Let_def)

lemma AddChild_cases:
  assumes "AddChild n c h = Inr (n', h')"
  obtains
    (first) "sb n = None"
      "n' = n\<lparr>sb := Some (allocated h), children := Some [ID (blocks h c) \<mapsto> c]\<rparr>"
      "h' = h\<lparr>trees := (trees h)(allocated h := NewTree SnowballFactory (params n) (ID (blocks h c))),
              allocated := Suc (allocated h)\<rparr>"
  | (further) a m where "sb n = Some a" "children n = Some m"
      "n' = n\<lparr>children := Some (m(ID (blocks h c) \<mapsto> c))\<rparr>"
      "h' = h\<lparr>trees := (trees h)(a := Tree_Add (trees h a) (ID (blocks h c)))\<rparr>"
proof (cases "sb n")
  case None
  with assms AddChild_nil [OF None, of c h] first show ?thesis by simp
next
  case (Some a)
  show ?thesis
  proof (cases "children n")
    case None
    with Some assms AddChild_panic [of n a c h] show ?thesis by simp
  next
    case (Some m)
    with \<open>sb n = Some a\<close> assms AddChild_extend [of n a m c h] further show ?thesis by simp
  qed
qed

lemma AddChild_blocks: "AddChild n c h = Inr (n', h') \<Longrightarrow> blocks h' = blocks h"
  by (erule AddChild_cases) simp_all

subsection \<open>Runs of AddChild calls\<close>

lemma AddChildren_blocks: "AddChildren n cs h = Inr (n', h') \<Longrightarrow> blocks h' = blocks h"
proof (induction cs arbitrary: n h)
  case Nil
  then show ?case by simp
next
  case (Cons c cs)
  then show ?case
    by (auto split: sum.splits dest: AddChild_blocks)
qed

lemma AddChildren_extend:
  "sb n = Some a \<Longrightarrow> children n = Some m \<Longrightarrow>
   \<exists>n' h' m'. AddChildren n cs h = Inr (n', h') \<and> sb n' = Some a \<and> children n' = Some m'
     \<and> allocated h' = allocated h
     \<and> (cs = [] \<longrightarrow> m' = m)
     \<and> (cs \<noteq> [] \<longrightarrow> m' (ID (blocks h (last cs))) = Some (last cs))"
proof (induction cs arbitrary: n m h)
  case Nil
  then show ?case by simp
next
  case (Cons c cs)
  let ?n1 = "n\<lparr>children := Some (m(ID (blocks h c) \<mapsto> c))\<rparr>"
  let ?h1 = "h\<lparr>trees := (trees h)(a := Tree_Add (trees h a) (ID (blocks h c)))\<rparr>"
  have step: "AddChild n c h = Inr (?n1, ?h1)"
    using Cons.prems by (rule AddChild_extend)
  have "sb ?n1 = Some a" "children ?n1 = Some (m(ID (blocks h c) \<mapsto> c))"
    using Cons.prems by simp_all
  from Cons.IH [OF this, of ?h1] obtain n' h' m' where
    r: "AddChildren ?n1 cs ?h1 = Inr (n', h')" "sb n' = Some a" "children n' = Some m'"
       "allocated h' = allocated ?h1" "cs = [] \<longrightarrow> m' = m(ID (blocks h c) \<mapsto> c)"
       "cs \<noteq> [] \<longrightarrow> m' (ID (blocks ?h1 (last cs))) = Some (last cs)"
    by blast
  show ?case
    using step r by (cases "cs = []") auto
qed

lemma AddChildren_fresh:
  assumes "sb n = None" "cs \<noteq> []"
  shows "\<exists>n' h' m'. AddChildren n cs h = Inr (n', h') \<and> sb n' = Some (allocated h)
     \<and> children n' = Some m' \<and> allocated h' = Suc (allocated h)
     \<and> m' (ID (blocks h (last cs))) = Some (last cs)"
proof -
  from assms(2) obtain c cs' where cs: "cs = c # cs'" by (cases cs) auto
  let ?n1 = "n\<lparr>sb := Some (allocated h), children := Some [ID (blocks h c) \<mapsto> c]\<rparr>"
  let ?h1 = "h\<lparr>trees := (trees h)(allocated h := NewTree SnowballFactory (params n) (ID (blocks h c))),
            allocated := Suc (allocated h)\<rparr>"
  have step: "AddChild n c h = Inr (?n1, ?h1)"
    using assms(1) by (rule AddChild_nil)
  have "sb ?n1 = Some (allocated h)" "children ?n1 = Some [ID (blocks h c) \<mapsto> c]"
    by simp_all
  from AddChildren_extend [OF this, of cs' ?h1] obtain n' h' m' where
    r: "AddChildren ?n1 cs' ?h1 = Inr (n', h')" "sb n' = Some (allocated h)" "children n' = Some m'"
       "allocated h' = allocated ?h1" "cs' = [] \<longrightarrow> m' = [ID (blocks h c) \<mapsto> c]"
       "cs' \<noteq> [] \<longrightarrow> m' (ID (blocks ?h1 (last cs'))) = Some (last cs')"
    by blast
  show ?thesis
    using step r cs by (cases "cs' = []") auto
qed


subsection \<open>The claims about the node\<close>

text \<open>
  C1, as amended. A node's snowball instance is nil until the first child is issued
  under it. A node as the engine makes it has no instance; \<^verbatim>\<open>AddChild\<close> on a node
  without an instance returns, and the node then holds a newly made instance,
  initialised with the child's identity; after any non-empty run of \<^verbatim>\<open>AddChild\<close>
  calls on a new node the node holds the instance made by the first call, and no
  other instance was made.
\<close>

theorem sb_created_with_first_child:
  "sb (newNode ps b) = None
   \<and> (sb n = None \<longrightarrow>
        (\<exists>n' h'. AddChild n c h = Inr (n', h') \<and> sb n' = Some (allocated h)
           \<and> trees h' (allocated h) = NewTree SnowballFactory (params n) (ID (blocks h c))
           \<and> allocated h' = Suc (allocated h)))
   \<and> (cs \<noteq> [] \<longrightarrow>
        (\<exists>n' h'. AddChildren (newNode ps b) cs h = Inr (n', h') \<and> sb n' = Some (allocated h)
           \<and> allocated h' = Suc (allocated h)))"
proof (intro conjI impI)
  show "sb (newNode ps b) = None" by (simp add: newNode_def)
next
  assume "sb n = None"
  from AddChild_nil [OF this, of c h]
  show "\<exists>n' h'. AddChild n c h = Inr (n', h') \<and> sb n' = Some (allocated h)
           \<and> trees h' (allocated h) = NewTree SnowballFactory (params n) (ID (blocks h c))
           \<and> allocated h' = Suc (allocated h)"
    by simp
next
  assume "cs \<noteq> []"
  moreover have "sb (newNode ps b) = None" by (simp add: newNode_def)
  ultimately show "\<exists>n' h'. AddChildren (newNode ps b) cs h = Inr (n', h')
      \<and> sb n' = Some (allocated h) \<and> allocated h' = Suc (allocated h)"
    using AddChildren_fresh [of "newNode ps b" cs h] by blast
qed

text \<open>C1, the amended statement at a new node, one child and a run of two children.\<close>

theorem sb_created_with_first_child_witness:
  "sb node0 = None
   \<and> \<not> isl (AddChild node0 1 heap0)
   \<and> sb (fst (projr (AddChild node0 1 heap0))) = Some 0
   \<and> [1, 2] \<noteq> ([] :: Block list)
   \<and> \<not> isl (AddChildren node0 [1, 2] heap0)
   \<and> sb (fst (projr (AddChildren node0 [1, 2] heap0))) = Some 0
   \<and> allocated (snd (projr (AddChildren node0 [1, 2] heap0))) = 1"
proof -
  have a: "sb node0 = None" by (simp add: node0_def newNode_def)
  have b: "[1, 2] \<noteq> ([] :: Block list)" by simp
  have c: "allocated heap0 = 0" by (simp add: heap0_def)
  from sb_created_with_first_child [of params0 "Some 0" node0 1 heap0 "[1, 2]"] a b c
  show ?thesis by (auto simp: node0_def)
qed

text \<open>
  C1 as stated fails: after \<^verbatim>\<open>AddChild\<close> with the first child of a new node the
  snowball instance is not nil.
\<close>

theorem sb_nil_until_second_child_counterexample:
  "sb node0 = None
   \<and> \<not> isl (AddChild node0 1 heap0)
   \<and> sb (fst (projr (AddChild node0 1 heap0))) \<noteq> None"
  by (simp add: AddChild_def new_Tree_def Let_def node0_def newNode_def heap0_def)





text \<open>
  C3. When the first child is added under a node, the node's snowball instance is
  made with that child's identity as its initial choice: the child's identity is the
  instance's preference and its only alternative, and the instance is not finalized.
\<close>

theorem first_child_is_initial_preference:
  "sb n = None \<Longrightarrow>
   \<exists>n' h' a. AddChild n child h = Inr (n', h') \<and> sb n' = Some a
     \<and> trees h' a = NewTree SnowballFactory (params n) (ID (blocks h child))
     \<and> Preference (trees h' a) = ID (blocks h child)
     \<and> alternatives (trees h' a) = {ID (blocks h child)}
     \<and> \<not> finalized (trees h' a)"
  using AddChild_nil [of n child h] by (simp add: NewTree_def Preference_def)

text \<open>C3 at a new node and block 1.\<close>

theorem first_child_is_initial_preference_witness:
  "sb node0 = None
   \<and> (\<exists>n' h' a. AddChild node0 1 heap0 = Inr (n', h') \<and> sb n' = Some a
         \<and> trees h' a = NewTree SnowballFactory params0 1 \<and> Preference (trees h' a) = 1)"
proof -
  have a: "sb node0 = None" by (simp add: node0_def newNode_def)
  have b: "ID (blocks heap0 1) = 1" by (simp add: heap0_def block1_def)
  have c: "params node0 = params0" by (simp add: node0_def newNode_def)
  from first_child_is_initial_preference [OF a, of 1 heap0] a b c
  show ?thesis by auto
qed

text \<open>
  C4. When the node holds a snowball instance, a call of \<^verbatim>\<open>AddChild\<close> that returns
  keeps the node's reference to that instance, makes no new instance, and changes the
  store only at that instance, which has the child's identity registered with it.
\<close>

theorem AddChild_reuses_instance:
  "sb n = Some a \<Longrightarrow> AddChild n child h = Inr (n', h') \<Longrightarrow>
   sb n' = Some a \<and> allocated h' = allocated h
   \<and> trees h' = (trees h)(a := Tree_Add (trees h a) (ID (blocks h child)))"
  by (erule AddChild_cases) auto

text \<open>C4 at a node with one child, when a second child is added.\<close>

theorem AddChild_reuses_instance_witness:
  "sb node1 = Some 0
   \<and> \<not> isl (AddChild node1 2 heap1)
   \<and> sb (fst (projr (AddChild node1 2 heap1))) = Some 0
   \<and> allocated (snd (projr (AddChild node1 2 heap1))) = 1
   \<and> alternatives (trees (snd (projr (AddChild node1 2 heap1))) 0) = {1, 2}
   \<and> Preference (trees (snd (projr (AddChild node1 2 heap1))) 0) = 1"
proof -
  have a: "sb node1 = Some 0" by (simp add: node1_def)
  have m: "children node1 = Some [1 \<mapsto> 1]" by (simp add: node1_def)
  have r: "AddChild node1 2 heap1 = Inr (projr (AddChild node1 2 heap1))"
    using AddChild_extend [OF a m, of 2 heap1] by simp
  have i: "\<not> isl (AddChild node1 2 heap1)"
    using AddChild_extend [OF a m, of 2 heap1] by simp
  have b: "ID (blocks heap1 2) = 2" by (simp add: heap1_def heap0_def block2_def)
  have t: "trees heap1 0 = NewTree SnowballFactory params0 1" "allocated heap1 = 1"
    by (simp_all add: heap1_def)
  from AddChild_reuses_instance
         [OF a, of 2 heap1 "fst (projr (AddChild node1 2 heap1))" "snd (projr (AddChild node1 2 heap1))"] r
  have "sb (fst (projr (AddChild node1 2 heap1))) = Some 0
      \<and> allocated (snd (projr (AddChild node1 2 heap1))) = allocated heap1
      \<and> trees (snd (projr (AddChild node1 2 heap1))) = (trees heap1)(0 := Tree_Add (trees heap1 0) (ID (blocks heap1 2)))"
    by simp
  with a i b t show ?thesis
    by (auto simp: Tree_Add_def NewTree_def Preference_def)
qed

text \<open>
  C5. The \<^verbatim>\<open>children\<close> map of a new node is nil. A run of \<^verbatim>\<open>AddChild\<close> calls on a
  new node returns; with no call the map is still nil, and after the last call of a
  non-empty run the map is not nil and holds the last child under its identity. For
  any node, a call of \<^verbatim>\<open>AddChild\<close> that returns leaves a map that is not nil and
  holds the child under its identity.
\<close>

theorem children_nil_until_first_child:
  "children (newNode ps b) = None
   \<and> (\<exists>n' h'. AddChildren (newNode ps b) cs h = Inr (n', h')
         \<and> (cs = [] \<longrightarrow> children n' = None)
         \<and> (cs \<noteq> [] \<longrightarrow> (\<exists>m. children n' = Some m \<and> m (ID (blocks h (last cs))) = Some (last cs))))
   \<and> (AddChild n child h = Inr (n1, h1) \<longrightarrow>
        (\<exists>m. children n1 = Some m \<and> m (ID (blocks h child)) = Some child))"
proof (intro conjI impI)
  show "children (newNode ps b) = None" by (simp add: newNode_def)
next
  show "\<exists>n' h'. AddChildren (newNode ps b) cs h = Inr (n', h')
         \<and> (cs = [] \<longrightarrow> children n' = None)
         \<and> (cs \<noteq> [] \<longrightarrow> (\<exists>m. children n' = Some m \<and> m (ID (blocks h (last cs))) = Some (last cs)))"
  proof (cases "cs = []")
    case True
    then show ?thesis by (simp add: newNode_def)
  next
    case False
    have "sb (newNode ps b) = None" by (simp add: newNode_def)
    from AddChildren_fresh [OF this False, of h] False show ?thesis by blast
  qed
next
  assume "AddChild n child h = Inr (n1, h1)"
  then show "\<exists>m. children n1 = Some m \<and> m (ID (blocks h child)) = Some child"
    by (rule AddChild_cases) auto
qed

text \<open>C5 at a new node, with a run of two children and with one call.\<close>

theorem children_nil_until_first_child_witness:
  "children node0 = None
   \<and> \<not> isl (AddChildren node0 [1, 2] heap0)
   \<and> (\<exists>m. children (fst (projr (AddChildren node0 [1, 2] heap0))) = Some m \<and> m 2 = Some 2)
   \<and> \<not> isl (AddChild node0 1 heap0)
   \<and> (\<exists>m. children (fst (projr (AddChild node0 1 heap0))) = Some m \<and> m 1 = Some 1)"
proof -
  have r: "AddChild node0 1 heap0 = Inr (fst (projr (AddChild node0 1 heap0)), snd (projr (AddChild node0 1 heap0)))"
    by (simp add: AddChild_def new_Tree_def Let_def node0_def newNode_def heap0_def)
  have i: "\<not> isl (AddChild node0 1 heap0)"
    by (simp add: AddChild_def new_Tree_def Let_def node0_def newNode_def heap0_def)
  have b: "ID (blocks heap0 2) = 2" "ID (blocks heap0 1) = 1" by (simp_all add: heap0_def block1_def block2_def)
  from children_nil_until_first_child
         [of params0 "Some 0" "[1, 2]" heap0 node0 1 "fst (projr (AddChild node0 1 heap0))" "snd (projr (AddChild node0 1 heap0))"]
       r i b
  show ?thesis by (auto simp: node0_def)
qed

text \<open>
  C6. \<^verbatim>\<open>Accepted\<close> is true exactly when the node's block is nil, or the block is not
  nil and its status is Accepted.
\<close>

theorem Accepted_nil_or_status:
  "Accepted n h = (blk n = None \<or> (\<exists>b. blk n = Some b \<and> Status (blocks h b) = choices_Accepted))"
  by (simp add: Accepted_def split: option.splits)

text \<open>
  C7. The operations of a node do not write to blocks. A call of \<^verbatim>\<open>AddChild\<close> that
  returns leaves every block object of the store as it was, and what it does to the
  node and to the snowball instances depends on the blocks only through the child's
  identity. \<^verbatim>\<open>Accepted\<close> and \<^verbatim>\<open>String\<close> return a value and no store: the result
  of \<^verbatim>\<open>Accepted\<close> depends on the blocks only through the status of the node's block,
  and the result of \<^verbatim>\<open>String\<close> only through the node's block and the blocks of its
  \<^verbatim>\<open>children\<close> map.
\<close>

theorem node_operations_do_not_write_blocks:
  "(AddChild n child h = Inr (n', h') \<longrightarrow> blocks h' = blocks h)
   \<and> (ID (blocks h2 child) = ID (blocks h child) \<and> trees h2 = trees h \<and> allocated h2 = allocated h \<longrightarrow>
        map_sum id (\<lambda>(n', h'). (n', trees h', allocated h')) (AddChild n child h2)
        = map_sum id (\<lambda>(n', h'). (n', trees h', allocated h')) (AddChild n child h))
   \<and> ((\<forall>b. blk n = Some b \<longrightarrow> Status (blocks h2 b) = Status (blocks h b)) \<longrightarrow>
        Accepted n h2 = Accepted n h)
   \<and> ((\<forall>b. blk n = Some b \<longrightarrow> blocks h2 b = blocks h b)
        \<and> (\<forall>m k v. children n = Some m \<and> m k = Some v \<longrightarrow> blocks h2 v = blocks h v)
        \<and> (\<forall>a. sb n = Some a \<longrightarrow> trees h2 a = trees h a) \<longrightarrow>
        String f ks n h2 = String f ks n h)"
proof (intro conjI impI)
  assume "AddChild n child h = Inr (n', h')"
  then show "blocks h' = blocks h" by (rule AddChild_blocks)
next
  assume "ID (blocks h2 child) = ID (blocks h child) \<and> trees h2 = trees h \<and> allocated h2 = allocated h"
  then show "map_sum id (\<lambda>(n', h'). (n', trees h', allocated h')) (AddChild n child h2)
        = map_sum id (\<lambda>(n', h'). (n', trees h', allocated h')) (AddChild n child h)"
    by (simp add: AddChild_def new_Tree_def Let_def split: option.splits)
next
  assume "\<forall>b. blk n = Some b \<longrightarrow> Status (blocks h2 b) = Status (blocks h b)"
  then show "Accepted n h2 = Accepted n h"
    by (simp add: Accepted_def split: option.splits)
next
  assume a: "(\<forall>b. blk n = Some b \<longrightarrow> blocks h2 b = blocks h b)
        \<and> (\<forall>m k v. children n = Some m \<and> m k = Some v \<longrightarrow> blocks h2 v = blocks h v)
        \<and> (\<forall>a. sb n = Some a \<longrightarrow> trees h2 a = trees h a)"
  show "String f ks n h2 = String f ks n h"
  proof (cases "children n")
    case None
    with a show ?thesis
      by (simp add: String_def Let_def split: option.splits)
  next
    case (Some m)
    have "map_option (\<lambda>v. v_ID f k @ '': '' @ v_Block f (blocks h2 v)) (m k)
        = map_option (\<lambda>v. v_ID f k @ '': '' @ v_Block f (blocks h v)) (m k)" for k
      using a Some by (cases "m k") auto
    then have kvs: "(\<lambda>k. map_option (\<lambda>v. v_ID f k @ '': '' @ v_Block f (blocks h2 v)) (m k))
        = (\<lambda>k. map_option (\<lambda>v. v_ID f k @ '': '' @ v_Block f (blocks h v)) (m k))"
      by (rule ext)
    have "String f ks n h2
        = String f ks (n\<lparr>children := None\<rparr>) h2
            @ '' children: {''
            @ Join (List.map_filter (\<lambda>k. map_option (\<lambda>v. v_ID f k @ '': '' @ v_Block f (blocks h2 v)) (m k)) ks) '', ''
            @ ''}''"
      using Some by (simp add: String_def Let_def split: option.splits)
    also have "String f ks (n\<lparr>children := None\<rparr>) h2 = String f ks (n\<lparr>children := None\<rparr>) h"
      using a by (simp add: String_def Let_def split: option.splits)
    also note kvs
    also have "String f ks (n\<lparr>children := None\<rparr>) h
            @ '' children: {''
            @ Join (List.map_filter (\<lambda>k. map_option (\<lambda>v. v_ID f k @ '': '' @ v_Block f (blocks h v)) (m k)) ks) '', ''
            @ ''}'' = String f ks n h"
      using Some by (simp add: String_def Let_def split: option.splits)
    finally show ?thesis .
  qed
qed

text \<open>
  C7 at a node with one child, when a second child is added, against a store that
  differs in a block the node does not refer to.
\<close>

theorem node_operations_do_not_write_blocks_witness:
  "\<not> isl (AddChild node1 2 heap1)
   \<and> blocks (snd (projr (AddChild node1 2 heap1))) = blocks heap1
   \<and> map_sum id (\<lambda>(n', h'). (n', trees h', allocated h'))
         (AddChild node1 2 (heap1\<lparr>blocks := (blocks heap1)(3 := block1)\<rparr>))
       = map_sum id (\<lambda>(n', h'). (n', trees h', allocated h')) (AddChild node1 2 heap1)
   \<and> Accepted node1 (heap1\<lparr>blocks := (blocks heap1)(3 := block1)\<rparr>) = Accepted node1 heap1
   \<and> String verbs0 [2, 1] node1 (heap1\<lparr>blocks := (blocks heap1)(3 := block1)\<rparr>)
       = String verbs0 [2, 1] node1 heap1"
proof -
  have a: "sb node1 = Some 0" by (simp add: node1_def)
  have m: "children node1 = Some [1 \<mapsto> 1]" by (simp add: node1_def)
  have b: "blk node1 = Some 0" by (simp add: node1_def node0_def newNode_def)
  have r: "AddChild node1 2 heap1
         = Inr (fst (projr (AddChild node1 2 heap1)), snd (projr (AddChild node1 2 heap1)))"
    using AddChild_extend [OF a m, of 2 heap1] by simp
  have i: "\<not> isl (AddChild node1 2 heap1)"
    using AddChild_extend [OF a m, of 2 heap1] by simp
  from node_operations_do_not_write_blocks
         [of node1 2 heap1 "fst (projr (AddChild node1 2 heap1))" "snd (projr (AddChild node1 2 heap1))"
             "heap1\<lparr>blocks := (blocks heap1)(3 := block1)\<rparr>" verbs0 "[2, 1]"] r i a m b
  show ?thesis by (simp split: if_splits)
qed


section \<open>Properties of the gossip mempool\<close>

subsection \<open>The loop of Add\<close>











subsection \<open>Refilling the filter\<close>

lemma Iterate_all:
  "Iterate txs (\<lambda>tx b. (True, f tx b)) b = foldl (\<lambda>b tx. f tx b) b txs"
  by (induction txs arbitrary: b) simp_all

lemma foldl_bloom_Add_keeps:
  assumes "\<forall>tx b x. bloom_Has B b x \<longrightarrow> bloom_Has B (bloom_Add B tx b) x"
  shows "bloom_Has B b x \<Longrightarrow> bloom_Has B (foldl (\<lambda>b tx. bloom_Add B tx b) b txs) x"
  using assms by (induction txs arbitrary: b) simp_all

lemma foldl_bloom_Add_has:
  assumes "\<forall>tx b. bloom_Has B (bloom_Add B tx b) tx"
    and "\<forall>tx b x. bloom_Has B b x \<longrightarrow> bloom_Has B (bloom_Add B tx b) x"
  shows "x \<in> set txs \<Longrightarrow> bloom_Has B (foldl (\<lambda>b tx. bloom_Add B tx b) b txs) x"
proof (induction txs arbitrary: b)
  case Nil
  then show ?case by simp
next
  case (Cons tx txs)
  show ?case
  proof (cases "x = tx")
    case True
    have "bloom_Has B (bloom_Add B tx b) x" using assms(1) True by simp
    then show ?thesis
      using foldl_bloom_Add_keeps [OF assms(2), of "bloom_Add B tx b" x txs] by simp
  next
    case False
    with Cons.prems have "x \<in> set txs" by simp
    then show ?thesis using Cons.IH by simp
  qed
qed

text \<open>
  C10. \<^verbatim>\<open>AddWithoutVerification\<close> keeps the invariant that every transaction of the
  mempool is in the bloom filter: when the invariant holds before a call that
  returns nil, it holds after the call, whether the filter was reset or not. The
  collaborators are taken with their contracts: the filter holds a transaction once
  it is added and keeps what it holds when another is added or when no reset takes
  place; a successful \<^verbatim>\<open>Add\<close> of the mempool brings in no transaction but the one
  added, and \<^verbatim>\<open>RequestBuildBlock\<close> brings in none.
\<close>

theorem AddWithoutVerification_keeps_mempool_in_bloom:
  assumes has_added: "\<forall>tx b. bloom_Has B (bloom_Add B tx b) tx"
    and add_keeps: "\<forall>tx b x. bloom_Has B b x \<longrightarrow> bloom_Has B (bloom_Add B tx b) x"
    and no_reset_keeps:
      "\<forall>b n b' x. ResetBloomFilterIfNeeded B b n = ((False, None), b') \<longrightarrow>
         bloom_Has B b x \<longrightarrow> bloom_Has B b' x"
    and mempool_add:
      "\<forall>tx m m'. mp_Add M tx m = (None, m') \<longrightarrow>
         set (mp_Iterate M m') \<subseteq> insert tx (set (mp_Iterate M m))"
    and request_keeps:
      "\<forall>m. set (mp_Iterate M (mp_RequestBuildBlock M m)) \<subseteq> set (mp_Iterate M m)"
    and inv: "mempool_in_bloom M B g"
    and ret: "AddWithoutVerification M B tx g = (None, g')"
  shows "mempool_in_bloom M B g'"
proof -
  obtain r m1 where add: "mp_Add M tx (Mempool g) = (r, m1)"
    by (cases "mp_Add M tx (Mempool g)")
  obtain reset err b2 where
    res: "ResetBloomFilterIfNeeded B (bloom_Add B tx (bloom g)) (mp_Len M m1 * bloomChurnMultiplier)
            = ((reset, err), b2)"
    by (cases "ResetBloomFilterIfNeeded B (bloom_Add B tx (bloom g)) (mp_Len M m1 * bloomChurnMultiplier)")
       auto
  from ret add have r: "r = None"
    by (cases r) (simp_all add: AddWithoutVerification_def)
  from ret add res r have err: "err = None"
    by (cases err) (simp_all add: AddWithoutVerification_def Let_def)
  let ?b3 = "if reset then Iterate (mp_Iterate M m1) (\<lambda>tx b. (True, bloom_Add B tx b)) b2 else b2"
  from ret add res r err
  have g': "g' = g\<lparr>Mempool := mp_RequestBuildBlock M m1, bloom := ?b3\<rparr>"
    by (simp add: AddWithoutVerification_def Let_def)
  have sub: "set (mp_Iterate M m1) \<subseteq> insert tx (set (mp_Iterate M (Mempool g)))"
    using mempool_add add r by blast
  have covered: "bloom_Has B ?b3 x" if x: "x \<in> set (mp_Iterate M m1)" for x
  proof (cases reset)
    case True
    then show ?thesis
      using foldl_bloom_Add_has [OF has_added add_keeps x, of b2] by (simp add: Iterate_all)
  next
    case False
    have "bloom_Has B (bloom_Add B tx (bloom g)) x"
    proof (cases "x = tx")
      case True
      then show ?thesis using has_added by simp
    next
      case False
      with x sub have "x \<in> set (mp_Iterate M (Mempool g))" by blast
      with inv have "bloom_Has B (bloom g) x"
        by (simp add: mempool_in_bloom_def list_all_iff)
      then show ?thesis using add_keeps by simp
    qed
    moreover from res False err
    have "ResetBloomFilterIfNeeded B (bloom_Add B tx (bloom g)) (mp_Len M m1 * bloomChurnMultiplier)
            = ((False, None), b2)" by simp
    ultimately have "bloom_Has B b2 x" using no_reset_keeps by blast
    with False show ?thesis by simp
  qed
  have "bloom_Has B ?b3 x" if "x \<in> set (mp_Iterate M (mp_RequestBuildBlock M m1))" for x
    using that request_keeps covered by blast
  then show ?thesis
    unfolding g' by (simp add: mempool_in_bloom_def list_all_iff)
qed

subsection \<open>Evaluating the examples\<close>

lemmas example_defs =
  gossipMempool_Add_def Add_body_def AddWithoutVerification_def list_Mempool_def
  list_BloomFilter_def verifier0_def gossip0_def gossip2_def tx1_def tx2_def tx3_def
  bloomChurnMultiplier_def gossipMempool_Has_def mempool_in_bloom_def Let_def


text \<open>
  C10 at the list mempool and the list filter, for a call on which the filter is
  reset and filled again from the mempool.
\<close>

theorem AddWithoutVerification_keeps_mempool_in_bloom_witness:
  "mempool_in_bloom list_Mempool list_BloomFilter gossip2
   \<and> fst (fst (ResetBloomFilterIfNeeded list_BloomFilter (bloom_Add list_BloomFilter tx3 (bloom gossip2)) 9))
   \<and> fst (AddWithoutVerification list_Mempool list_BloomFilter tx3 gossip2) = None
   \<and> mp_Iterate list_Mempool (Mempool (snd (AddWithoutVerification list_Mempool list_BloomFilter tx3 gossip2)))
        = [tx1, tx2, tx3]
   \<and> mempool_in_bloom list_Mempool list_BloomFilter
        (snd (AddWithoutVerification list_Mempool list_BloomFilter tx3 gossip2))"
proof -
  have c1: "\<forall>tx b. bloom_Has list_BloomFilter (bloom_Add list_BloomFilter tx b) tx"
    by (simp add: list_BloomFilter_def)
  have c2: "\<forall>tx b x. bloom_Has list_BloomFilter b x \<longrightarrow> bloom_Has list_BloomFilter (bloom_Add list_BloomFilter tx b) x"
    by (simp add: list_BloomFilter_def)
  have c3: "\<forall>b n b' x. ResetBloomFilterIfNeeded list_BloomFilter b n = ((False, None), b') \<longrightarrow>
         bloom_Has list_BloomFilter b x \<longrightarrow> bloom_Has list_BloomFilter b' x"
    by (simp add: list_BloomFilter_def split: if_splits)
  have c4: "\<forall>tx m m'. mp_Add list_Mempool tx m = (None, m') \<longrightarrow>
         set (mp_Iterate list_Mempool m') \<subseteq> insert tx (set (mp_Iterate list_Mempool m))"
    by (auto simp: list_Mempool_def split: if_splits)
  have c5: "\<forall>m. set (mp_Iterate list_Mempool (mp_RequestBuildBlock list_Mempool m))
         \<subseteq> set (mp_Iterate list_Mempool m)"
    by (simp add: list_Mempool_def)
  have inv: "mempool_in_bloom list_Mempool list_BloomFilter gossip2"
    by (simp add: mempool_in_bloom_def list_Mempool_def list_BloomFilter_def gossip2_def)
  have reset: "fst (fst (ResetBloomFilterIfNeeded list_BloomFilter (bloom_Add list_BloomFilter tx3 (bloom gossip2)) 9))"
    by (simp add: list_BloomFilter_def gossip2_def)
  have run: "AddWithoutVerification list_Mempool list_BloomFilter tx3 gossip2
      = (None, snd (AddWithoutVerification list_Mempool list_BloomFilter tx3 gossip2))"
    by (simp add: example_defs)
  have txs: "mp_Iterate list_Mempool (Mempool (snd (AddWithoutVerification list_Mempool list_BloomFilter tx3 gossip2)))
        = [tx1, tx2, tx3]"
    by (simp add: AddWithoutVerification_def list_Mempool_def list_BloomFilter_def gossip2_def
          tx1_def tx2_def tx3_def Let_def)
  have none: "fst (AddWithoutVerification list_Mempool list_BloomFilter tx3 gossip2) = None"
    using run by (metis fst_conv)
  from AddWithoutVerification_keeps_mempool_in_bloom [OF c1 c2 c3 c4 c5 inv run]
  have "mempool_in_bloom list_Mempool list_BloomFilter
        (snd (AddWithoutVerification list_Mempool list_BloomFilter tx3 gossip2))" .
  with inv reset none txs show ?thesis by blast
qed


section \<open>Properties of the consensus engine\<close>

subsection \<open>Events and chains\<close>

lemma accepts_append: "accepts (xs @ ys) = accepts xs @ accepts ys"
  by (induction xs rule: accepts.induct) simp_all

lemma accepts_rejects: "accepts (map OnReject xs) = []"
  by (induction xs) simp_all

lemma chain_append:
  "chain R r (xs @ ys) = (chain R r xs \<and> chain R (last (r # xs)) ys)"
  by (induction xs arbitrary: r) simp_all

lemma chain_trancl:
  "chain R r (pre @ x # mid @ y # post) \<Longrightarrow> (x, y) \<in> R\<^sup>+"
proof -
  have later: "chain R a (ms @ y # post) \<Longrightarrow> (a, y) \<in> R\<^sup>+" for a ms
  proof (induction ms arbitrary: a)
    case Nil
    then show ?case by auto
  next
    case (Cons m ms)
    then have "(a, m) \<in> R" "(m, y) \<in> R\<^sup>+" by simp_all
    then show ?case by (rule trancl_into_trancl2)
  qed
  assume "chain R r (pre @ x # mid @ y # post)"
  then have "chain R x (mid @ y # post)"
    by (simp add: chain_append)
  then show ?thesis by (rule later)
qed

subsection \<open>The tree keeps its shape\<close>

lemma n_blk_mark_falter [simp]: "n_blk (mark_falter a v d f n) = n_blk n"
  by (cases n) (simp add: Let_def)

lemma nid_mark_falter [simp]: "nid d' (mark_falter a v d f n) = nid d' n"
  by (simp add: nid_def)

lemma wf_mark_falter: "wf_node bs d (mark_falter a v d f n) = wf_node bs d n"
  by (induction a v d f n rule: mark_falter.induct) (simp add: Let_def nid_def)

lemma n_blk_insert_child [simp]: "n_blk (insert_child ps d b n) = n_blk n"
  by (cases n) (simp add: node_AddChild_def)

lemma nid_insert_child [simp]: "nid d' (insert_child ps d b n) = nid d' n"
  by (simp add: nid_def)

lemma wf_insert_child:
  "wf_node bs d n \<Longrightarrow> b \<in> set bs \<Longrightarrow> wf_node bs d (insert_child ps d b n)"
proof (induction ps d b n rule: insert_child.induct)
  case (1 ps d child b s f cs)
  show ?case
  proof (cases "nid d (Node b s f cs) = Parent child")
    case True
    with "1.prems" show ?thesis
      by (auto simp: node_AddChild_def nid_def)
  next
    case False
    with 1 show ?thesis by (auto simp: nid_def)
  qed
qed

lemma wf_node_default:
  "wf_node bs d n \<Longrightarrow> nid d' n = nid d n \<Longrightarrow> wf_node bs d' n"
proof (induction bs d n rule: wf_node.induct)
  case (1 bs d b s f cs)
  have "wf_node bs d' c" if "c \<in> set cs" for c
  proof -
    from "1.prems"(1) that obtain x where "n_blk c = Some x" "wf_node bs d c" by auto
    then show ?thesis using "1.IH" [OF that] by (simp add: nid_def)
  qed
  with "1.prems" show ?case by auto
qed

text \<open>
  The pass accepts a chain of blocks, each a child of the one before, and its result
  is the subtree of the last of them.
\<close>

lemma poll_pass_chain:
  "wf_node bs d n \<Longrightarrow> poll_pass v d n = (r, ev) \<Longrightarrow>
   wf_node bs d r \<and> chain (child_rel bs) (nid d n) (accepts ev)
   \<and> nid d r = last (nid d n # accepts ev)"
proof (induction v d n arbitrary: r ev rule: poll_pass.induct)
  case (1 v d b s f cs)
  show ?case
  proof (cases s)
    case None
    with "1.prems" show ?thesis by auto
  next
    case (Some t)
    define t' where "t' = Tree_RecordPoll t (if f then [] else tally v d cs)"
    show ?thesis
    proof (cases "finalized t'")
      case False
      with "1.prems" Some have "r = Node b (Some t') f cs" "ev = []"
        by (simp_all add: t'_def Let_def)
      with "1.prems"(1) show ?thesis by (simp add: nid_def)
    next
      case fin: True
      show ?thesis
      proof (cases "find (\<lambda>c. nid d c = preference t') cs")
        case None
        with "1.prems" Some fin have "r = Node b (Some t') f cs" "ev = []"
          by (simp_all add: t'_def Let_def)
        with "1.prems"(1) show ?thesis by (simp add: nid_def)
      next
        case found: (Some c)
        then have c: "c \<in> set cs" by (auto simp: find_Some_iff)
        obtain r' ev' where sub: "poll_pass v d c = (r', ev')" by (cases "poll_pass v d c")
        from "1.prems"(2) Some fin found sub
        have r: "r = r'"
          and ev: "ev = OnAccept (nid d c)
                      # map OnReject (concat (map (node_ids d)
                          (filter (\<lambda>c'. nid d c' \<noteq> nid d c) cs))) @ ev'"
          by (simp_all add: t'_def Let_def)
        from "1.prems"(1) c obtain x where
          x: "x \<in> set bs" "n_blk c = Some x" "Parent x = nid d (Node b s f cs)"
          and wfc: "wf_node bs d c" by auto
        have edge: "(nid d (Node b s f cs), nid d c) \<in> child_rel bs"
          using x by (force simp: child_rel_def nid_def)
        from "1.IH" [OF Some t'_def fin found wfc sub]
        have ih: "wf_node bs d r'" "chain (child_rel bs) (nid d c) (accepts ev')"
          "nid d r' = last (nid d c # accepts ev')" by simp_all
        show ?thesis
          using r ev edge ih by (simp add: accepts_append accepts_rejects)
      qed
    qed
  qed
qed


subsection \<open>The invariant holds in every run\<close>

lemma inv_Initialize: "engine_inv bs g (Initialize ps g)"
  by (simp add: engine_inv_def Initialize_def nid_def)

lemma inv_Add:
  assumes "engine_inv bs g e" "b \<in> set bs" "engine_Add b e = Inr e'"
  shows "engine_inv bs g e'"
proof -
  from assms(3) have e': "e' = e\<lparr>root := insert_child (eng_params e) (lastAccepted e) b (root e)\<rparr>"
    by (simp add: engine_Add_def split: if_splits)
  from assms(1) have i: "wf_node bs (lastAccepted e) (root e)"
    "nid (lastAccepted e) (root e) = lastAccepted e"
    "chain (child_rel bs) g (accepts (events e))"
    "lastAccepted e = last (g # accepts (events e))"
    unfolding engine_inv_def by blast+
  have "wf_node bs (lastAccepted e) (insert_child (eng_params e) (lastAccepted e) b (root e))"
    using i(1) assms(2) by (rule wf_insert_child)
  moreover have "nid (lastAccepted e) (insert_child (eng_params e) (lastAccepted e) b (root e))
      = lastAccepted e"
    using i(2) by simp
  ultimately show ?thesis
    using i(3,4) unfolding e' engine_inv_def by (simp del: last.simps)
qed

lemma inv_RecordPoll:
  assumes "engine_inv bs g e"
  shows "engine_inv bs g (engine_RecordPoll v e)"
proof -
  let ?d = "lastAccepted e"
  let ?m = "mark_falter (Alpha (eng_params e)) v ?d False (root e)"
  from assms have i: "wf_node bs ?d (root e)" "nid ?d (root e) = ?d"
    "chain (child_rel bs) g (accepts (events e))" "?d = last (g # accepts (events e))"
    unfolding engine_inv_def by blast+
  obtain r ev where pp: "poll_pass v ?d ?m = (r, ev)" by (cases "poll_pass v ?d ?m")
  have wfm: "wf_node bs ?d ?m"
    using i(1) by (simp add: wf_mark_falter)
  have d: "nid ?d ?m = ?d" using i(2) by simp
  from poll_pass_chain [OF wfm pp]
  have r: "wf_node bs ?d r" "chain (child_rel bs) ?d (accepts ev)"
    "nid ?d r = last (?d # accepts ev)"
    unfolding d by blast+
  have e': "engine_RecordPoll v e = e\<lparr>root := r, lastAccepted := nid ?d r, events := events e @ ev\<rparr>"
    using pp by (simp add: engine_RecordPoll_def)
  have n: "nid (nid ?d r) r = nid ?d r" by (simp add: nid_def split: option.splits)
  have w: "wf_node bs (nid ?d r) r" using r(1) n by (rule wf_node_default)
  have c: "chain (child_rel bs) g (accepts (events e @ ev))"
    unfolding accepts_append chain_append using i(3) r(2) i(4) by simp
  have "last (?d # accepts ev) = last (g # accepts (events e) @ accepts ev)"
    by (subst i(4)) simp
  then have l: "nid ?d r = last (g # accepts (events e @ ev))"
    using r(3) by (simp add: accepts_append del: last.simps)
  show ?thesis
    unfolding e' engine_inv_def using w n c l by (simp del: last.simps)
qed

lemma inv_step:
  assumes "engine_inv bs g e" "set (added [c]) \<subseteq> set bs"
  shows "engine_inv bs g (step c e)"
proof (cases c)
  case (Call_Add b)
  with assms(2) have "b \<in> set bs" by simp
  with assms(1) Call_Add show ?thesis
    by (auto split: sum.splits intro: inv_Add)
next
  case (Call_RecordPoll v)
  with assms(1) show ?thesis by (simp add: inv_RecordPoll)
qed

lemma added_Cons: "set (added (c # cs)) = set (added [c]) \<union> set (added cs)"
  by (cases c) auto

lemma inv_run:
  "engine_inv bs g e \<Longrightarrow> set (added cs) \<subseteq> set bs \<Longrightarrow> engine_inv bs g (run cs e)"
proof (induction cs arbitrary: e)
  case Nil
  then show ?case by simp
next
  case (Cons c cs)
  from Cons.prems(2) have "set (added [c]) \<subseteq> set bs" "set (added cs) \<subseteq> set bs"
    unfolding added_Cons [of c cs] by simp_all
  with Cons show ?case by (simp add: inv_step del: added.simps)
qed

subsection \<open>The parent relation of well-formed blocks\<close>

text \<open>
  A block has one parent, heights grow along the relation, so no block is below
  itself, and two ancestors of one block are ancestors of each other.
\<close>

lemma well_formed_same_ID:
  "well_formed bs \<Longrightarrow> b \<in> set bs \<Longrightarrow> b' \<in> set bs \<Longrightarrow> ID b = ID b' \<Longrightarrow>
   Parent b = Parent b' \<and> Height b = Height b'"
  unfolding well_formed_def by blast

lemma well_formed_height:
  "well_formed bs \<Longrightarrow> b \<in> set bs \<Longrightarrow> b' \<in> set bs \<Longrightarrow> Parent b = ID b' \<Longrightarrow>
   Height b' < Height b"
  unfolding well_formed_def by blast

lemma child_relE:
  assumes "(p, c) \<in> child_rel bs"
  obtains b where "b \<in> set bs" "ID b = c" "Parent b = p"
  using assms unfolding child_rel_def by blast

lemma child_rel_parent_unique:
  assumes "well_formed bs" "(a, c) \<in> child_rel bs" "(b, c) \<in> child_rel bs"
  shows "a = b"
proof -
  from assms(2) obtain x where x: "x \<in> set bs" "ID x = c" "Parent x = a" by (rule child_relE)
  from assms(3) obtain y where y: "y \<in> set bs" "ID y = c" "Parent y = b" by (rule child_relE)
  from x(2) y(2) have "ID x = ID y" by simp
  with assms(1) x(1) y(1) have "Parent x = Parent y" by (blast dest: well_formed_same_ID)
  with x(3) y(3) show ?thesis by simp
qed

lemma child_rel_height:
  assumes "well_formed bs" "(a, b) \<in> (child_rel bs)\<^sup>+" "x \<in> set bs" "ID x = a"
  shows "\<exists>y \<in> set bs. ID y = b \<and> Height x < Height y"
  using assms(2)
proof (induction rule: trancl_induct)
  case (base b)
  then obtain y where y: "y \<in> set bs" "ID y = b" "Parent y = a" by (rule child_relE)
  from y(3) assms(4) have "Parent y = ID x" by simp
  with assms(1) y(1) assms(3) have "Height x < Height y" by (rule well_formed_height)
  with y(1,2) show ?case by blast
next
  case (step b c)
  then obtain y where y: "y \<in> set bs" "ID y = b" "Height x < Height y" by blast
  from step.hyps(2) obtain z where z: "z \<in> set bs" "ID z = c" "Parent z = b" by (rule child_relE)
  from z(3) y(2) have "Parent z = ID y" by simp
  with assms(1) z(1) y(1) have "Height y < Height z" by (rule well_formed_height)
  with y(3) have "Height x < Height z" by (rule less_trans)
  with z(1,2) show ?case by blast
qed

lemma child_rel_acyclic:
  assumes "well_formed bs" "(a, a) \<in> (child_rel bs)\<^sup>+"
  shows False
proof -
  from assms(2) obtain p where "(p, a) \<in> child_rel bs" by (meson tranclE)
  then obtain x where x: "x \<in> set bs" "ID x = a" by (rule child_relE)
  from child_rel_height [OF assms x] obtain y where y: "y \<in> set bs" "ID y = a" "Height x < Height y"
    by blast
  from x(2) y(2) have "ID x = ID y" by simp
  with assms(1) x(1) y(1) have "Height x = Height y" by (blast dest: well_formed_same_ID)
  with y(3) show False by simp
qed

lemma ancestors_comparable:
  assumes "well_formed bs" "(x, y) \<in> (child_rel bs)\<^sup>*" "(s, y) \<in> (child_rel bs)\<^sup>*"
  shows "(x, s) \<in> (child_rel bs)\<^sup>* \<or> (s, x) \<in> (child_rel bs)\<^sup>*"
  using assms(3,2)
proof (induction arbitrary: x rule: rtrancl_induct)
  case base
  then show ?case by simp
next
  case (step z y)
  from step.prems show ?case
  proof (cases rule: rtranclE)
    case base
    from step.hyps(1,2) have "(s, y) \<in> (child_rel bs)\<^sup>*" by (rule rtrancl_into_rtrancl)
    with base show ?thesis by simp
  next
    case (step w)
    with assms(1) \<open>(z, y) \<in> child_rel bs\<close> have "w = z" by (auto dest: child_rel_parent_unique)
    with step(1) show ?thesis using step.IH by simp
  qed
qed

lemma no_sibling_below:
  assumes wf: "well_formed bs" and xy: "(x, y) \<in> (child_rel bs)\<^sup>+"
    and sib: "sibling bs x s" and sy: "descends bs s y"
  shows False
proof -
  from sib obtain p where p: "s \<noteq> x" "(p, x) \<in> child_rel bs" "(p, s) \<in> child_rel bs"
    by (auto simp: sibling_def)
  have below: False if "(a, b) \<in> (child_rel bs)\<^sup>*" "a \<noteq> b"
      "(p, a) \<in> child_rel bs" "(p, b) \<in> child_rel bs" for a b
  proof -
    from that(1,2) have "(a, b) \<in> (child_rel bs)\<^sup>+" by (simp add: rtrancl_eq_or_trancl)
    then obtain w where w: "(a, w) \<in> (child_rel bs)\<^sup>*" "(w, b) \<in> child_rel bs"
      by (meson tranclD2)
    with wf that(4) have "w = p" by (auto dest: child_rel_parent_unique)
    with w that(3) have "(a, a) \<in> (child_rel bs)\<^sup>+" by (meson rtrancl_into_trancl1)
    with wf show False by (rule child_rel_acyclic)
  qed
  from xy have "(x, y) \<in> (child_rel bs)\<^sup>*" by simp
  with wf sy have "(x, s) \<in> (child_rel bs)\<^sup>* \<or> (s, x) \<in> (child_rel bs)\<^sup>*"
    unfolding descends_def by (intro ancestors_comparable)
  with p below [of x s] below [of s x] show False by auto
qed

subsection \<open>Safety\<close>

text \<open>
  C8. In every run of \<^verbatim>\<open>Add\<close> and \<^verbatim>\<open>RecordPoll\<close> calls on the engine, from its
  initial state and on well-formed blocks: once a block is reported via
  \<^verbatim>\<open>OnAccept\<close>, no sibling of that block and no descendant of such a sibling is
  reported via \<^verbatim>\<open>OnAccept\<close> later.
\<close>

theorem accepted_blocks_exclude_sibling_branches:
  assumes "well_formed (added cs)"
    and "events (run cs (Initialize ps g)) = pre @ OnAccept x # mid @ OnAccept y # post"
  shows "\<not> (\<exists>s. sibling (added cs) x s \<and> descends (added cs) s y)"
proof
  assume "\<exists>s. sibling (added cs) x s \<and> descends (added cs) s y"
  then obtain s where s: "sibling (added cs) x s" "descends (added cs) s y" by blast
  have "engine_inv (added cs) g (run cs (Initialize ps g))"
    by (intro inv_run inv_Initialize) simp
  then have "chain (child_rel (added cs)) g (accepts (events (run cs (Initialize ps g))))"
    by (simp add: engine_inv_def)
  then have "chain (child_rel (added cs)) g
      (accepts pre @ x # accepts mid @ y # accepts post)"
    by (simp add: assms(2) accepts_append)
  then have "(x, y) \<in> (child_rel (added cs))\<^sup>+" by (rule chain_trancl)
  with assms(1) show False using s by (rule no_sibling_below)
qed


subsection \<open>The scenario\<close>

lemma added_scenario2: "added scenario2 = [block1, block2, block3, block4]"
  by (simp add: scenario2_def scenario_def)

lemma events_scenario2:
  "events (run scenario2 (Initialize params0 0)) = [OnAccept 1, OnReject 2, OnAccept 3]"
  by code_simp

lemma wf_scenario2: "well_formed [block1, block2, block3, block4]"
  unfolding well_formed_def by (simp add: block1_def block2_def block3_def block4_def)


text \<open>
  C8 at the scenario: block 1 is accepted, then block 3; block 2 is a sibling of
  block 1 with the descendant block 4, and block 3 is not below block 2.
\<close>

theorem accepted_blocks_exclude_sibling_branches_witness:
  "well_formed (added scenario2)
   \<and> events (run scenario2 (Initialize params0 0)) = [] @ OnAccept 1 # [OnReject 2] @ OnAccept 3 # []
   \<and> sibling (added scenario2) 1 2
   \<and> descends (added scenario2) 2 4
   \<and> \<not> descends (added scenario2) 2 3"
proof -
  have w: "well_formed (added scenario2)"
    unfolding added_scenario2 by (rule wf_scenario2)
  have e: "events (run scenario2 (Initialize params0 0)) = [] @ OnAccept 1 # [OnReject 2] @ OnAccept 3 # []"
    using events_scenario2 by simp
  have "(0, 1) \<in> child_rel (added scenario2)" "(0, 2) \<in> child_rel (added scenario2)"
    unfolding added_scenario2 by (simp_all add: child_rel_def block1_def block2_def)
  then have s: "sibling (added scenario2) 1 2"
    unfolding sibling_def by auto
  have "(2, 4) \<in> child_rel (added scenario2)"
    unfolding added_scenario2 by (simp add: child_rel_def block4_def)
  then have d: "descends (added scenario2) 2 4"
    unfolding descends_def by (rule r_into_rtrancl)
  from accepted_blocks_exclude_sibling_branches [OF w e] s
  have "\<not> descends (added scenario2) 2 3" by blast
  with w e s d show ?thesis by blast
qed


end
